theory Spec2Isabelle
  imports
    Complex_Main
    "HOL-Library.Word"
    "HOL-Library.Char_ord"
    "HOL-Library.List_Lexorder"
    "HOL-Library.Multiset"
begin

section \<open>The user registry of \<^verbatim>\<open>examples/sample_project/advanced.cpp\<close>\<close>

text \<open>
  The development embeds the classes \<^verbatim>\<open>User\<close>, \<^verbatim>\<open>UserManager\<close> and
  \<^verbatim>\<open>DataProcessor\<close>. A \<^verbatim>\<open>std::string\<close> is a \<open>string\<close> (a list of bytes), a C++
  \<^verbatim>\<open>int\<close> is a 32-bit word read as a signed number (\<open>sint\<close>, \<open>\<le>s\<close>, \<open><s\<close>), a
  \<^verbatim>\<open>size_t\<close> position is a \<open>nat\<close> and \<^verbatim>\<open>string::npos\<close> is \<open>None\<close>. A
  \<^verbatim>\<open>shared_ptr<User>\<close> is modelled by the \<^verbatim>\<open>User\<close> value it points to (the
  pointers handed to the functions below are non-null, and no caller writes through a
  handle it got back), and a null \<^verbatim>\<open>shared_ptr\<close> result is \<open>None\<close>.
\<close>

subsection \<open>Operations of \<^verbatim>\<open>std::string\<close>\<close>

type_synonym cint = "32 word"

text \<open>\<^verbatim>\<open>s.find(c, pos)\<close>: the first index \<open>i \<ge> pos\<close> with \<open>s[i] = c\<close>.\<close>

fun find_loop :: "char \<Rightarrow> string \<Rightarrow> nat \<Rightarrow> nat option" where
  "find_loop c [] i = None"
| "find_loop c (x # xs) i = (if x = c then Some i else find_loop c xs (Suc i))"

definition string_find :: "string \<Rightarrow> char \<Rightarrow> nat \<Rightarrow> nat option" where
  "string_find s c pos = find_loop c (drop pos s) pos"

text \<open>
  \<^verbatim>\<open>s.find_first_not_of(c)\<close> and \<^verbatim>\<open>s.find_last_not_of(c)\<close>: the first and the last
  index whose character differs from \<open>c\<close>. The second loop counts down; \<open>i\<close> is the
  number of characters not yet examined.
\<close>

fun first_not_loop :: "char \<Rightarrow> string \<Rightarrow> nat \<Rightarrow> nat option" where
  "first_not_loop c [] i = None"
| "first_not_loop c (x # xs) i = (if x \<noteq> c then Some i else first_not_loop c xs (Suc i))"

definition find_first_not_of :: "string \<Rightarrow> char \<Rightarrow> nat option" where
  "find_first_not_of s c = first_not_loop c s 0"

fun last_not_loop :: "char \<Rightarrow> string \<Rightarrow> nat \<Rightarrow> nat option" where
  "last_not_loop c s 0 = None"
| "last_not_loop c s (Suc i) = (if s ! i \<noteq> c then Some i else last_not_loop c s i)"

definition find_last_not_of :: "string \<Rightarrow> char \<Rightarrow> nat option" where
  "find_last_not_of s c = last_not_loop c s (length s)"

text \<open>
  \<^verbatim>\<open>s.substr(pos, n)\<close>: the characters from \<open>pos\<close> on, at most \<open>n\<close> of them, all of
  them when \<open>n\<close> is left out (\<open>None\<close>, the default \<^verbatim>\<open>npos\<close>). The library throws
  \<^verbatim>\<open>out_of_range\<close> when \<open>pos\<close> exceeds the length; every call below passes a position
  that a search returned, or one more, so the case does not arise (lemmas
  \<open>parse_positions\<close> and \<open>find_first_not_of_less\<close>).
\<close>

definition substr :: "string \<Rightarrow> nat \<Rightarrow> nat option \<Rightarrow> string" where
  "substr s pos n = (case n of None \<Rightarrow> drop pos s | Some k \<Rightarrow> take k (drop pos s))"

text \<open>
  \<^verbatim>\<open>std::stoi(str)\<close>, from the C++ standard: it calls \<^verbatim>\<open>strtol\<close> in base 10, which
  skips leading white space (\<^verbatim>\<open>isspace\<close> in the C locale: space and the codes 9 to
  13), reads an optional sign and then the longest run of decimal digits, ignoring what
  follows. \<^verbatim>\<open>stoi\<close> throws \<^verbatim>\<open>invalid_argument\<close> when there is no digit to convert and
  \<^verbatim>\<open>out_of_range\<close> when the number does not fit the result type \<^verbatim>\<open>int\<close>.
\<close>

datatype stoi_error = Invalid_argument | Out_of_range

definition isspace :: "char \<Rightarrow> bool" where
  "isspace c = (c = CHR '' '' \<or> (9 \<le> (of_char c :: nat) \<and> (of_char c :: nat) \<le> 13))"

definition isdigit :: "char \<Rightarrow> bool" where
  "isdigit c = (48 \<le> (of_char c :: nat) \<and> (of_char c :: nat) \<le> 57)"

definition digit_value :: "char \<Rightarrow> int" where
  "digit_value c = int (of_char c) - 48"

fun strtol_digits :: "int \<Rightarrow> string \<Rightarrow> int" where
  "strtol_digits acc [] = acc"
| "strtol_digits acc (c # cs) =
     (if isdigit c then strtol_digits (10 * acc + digit_value c) cs else acc)"

definition stoi :: "string \<Rightarrow> stoi_error + cint" where
  "stoi str =
     (let s1 = dropWhile isspace str;
          negative = (case s1 of [] \<Rightarrow> False | c # _ \<Rightarrow> c = CHR ''-'');
          s2 = (case s1 of [] \<Rightarrow> []
                | c # rest \<Rightarrow> if c = CHR ''-'' \<or> c = CHR ''+'' then rest else s1)
      in case s2 of
           [] \<Rightarrow> Inl Invalid_argument
         | d # _ \<Rightarrow>
             if \<not> isdigit d then Inl Invalid_argument
             else let v = (if negative then - strtol_digits 0 s2 else strtol_digits 0 s2)
                  in if v < - (2 ^ 31) \<or> 2 ^ 31 - 1 < v then Inl Out_of_range
                     else Inr (word_of_int v))"

subsection \<open>Class \<^verbatim>\<open>User\<close>\<close>

record User =
  name :: string
  age :: cint
  email :: string

definition validateName :: "User \<Rightarrow> bool" where
  "validateName u = (name u \<noteq> [])"

definition validateAge :: "User \<Rightarrow> bool" where
  "validateAge u = (18 \<le>s age u \<and> age u \<le>s 150)"

definition validateEmail :: "User \<Rightarrow> bool" where
  "validateEmail u = (string_find (email u) (CHR ''@'') 0 \<noteq> None)"

definition validate :: "User \<Rightarrow> bool" where
  "validate u = (validateName u \<and> validateAge u \<and> validateEmail u)"

definition isAdult :: "User \<Rightarrow> bool" where
  "isAdult u = (18 \<le>s age u)"

definition getName :: "User \<Rightarrow> string" where
  "getName u = name u"

definition getAge :: "User \<Rightarrow> cint" where
  "getAge u = age u"

definition getEmail :: "User \<Rightarrow> string" where
  "getEmail u = email u"

subsection \<open>The container \<^verbatim>\<open>std::map<string, shared_ptr<User>>\<close>\<close>

text \<open>
  A \<^verbatim>\<open>std::map\<close> holds its entries in increasing key order and iterates over them
  in that order; strings compare bytewise and lexicographically. The model is the list
  of entries in iteration order. \<open>map_find\<close> is \<^verbatim>\<open>m.find(k)\<close> (\<open>None\<close> for
  \<^verbatim>\<open>m.end()\<close>), \<open>map_assign\<close> is \<^verbatim>\<open>m[k] = v\<close> (overwrite the entry of \<open>k\<close> or
  insert one at its place in the order), \<open>map_erase\<close> is \<^verbatim>\<open>m.erase(m.find(k))\<close> for a
  key that was found.
\<close>

type_synonym user_map = "(string \<times> User) list"

fun map_find :: "user_map \<Rightarrow> string \<Rightarrow> User option" where
  "map_find [] k = None"
| "map_find ((k', v) # m) k = (if k' = k then Some v else map_find m k)"

fun map_assign :: "string \<Rightarrow> User \<Rightarrow> user_map \<Rightarrow> user_map" where
  "map_assign k v [] = [(k, v)]"
| "map_assign k v ((k', v') # m) =
     (if k = k' then (k, v) # m
      else if k < k' then (k, v) # (k', v') # m
      else (k', v') # map_assign k v m)"

fun map_erase :: "string \<Rightarrow> user_map \<Rightarrow> user_map" where
  "map_erase k [] = []"
| "map_erase k ((k', v') # m) = (if k = k' then m else (k', v') # map_erase k m)"

text \<open>The structural invariant of \<^verbatim>\<open>std::map\<close>: keys strictly increasing.\<close>

definition map_ordered :: "user_map \<Rightarrow> bool" where
  "map_ordered m = sorted_wrt (<) (map fst m)"

subsection \<open>Class \<^verbatim>\<open>UserManager\<close>\<close>

text \<open>
  The state is the field \<^verbatim>\<open>users\<close> together with the lines written so far to
  \<^verbatim>\<open>std::cout\<close> and \<^verbatim>\<open>std::cerr\<close> (oldest first), through which \<^verbatim>\<open>logInfo\<close>
  and \<^verbatim>\<open>logError\<close> report.
\<close>

datatype stream = Cout | Cerr

record state =
  users :: user_map
  console :: "(stream \<times> string) list"

definition logError :: "string \<Rightarrow> state \<Rightarrow> state" where
  "logError message s = s\<lparr>console := console s @ [(Cerr, ''Error: '' @ message)]\<rparr>"

definition logInfo :: "string \<Rightarrow> state \<Rightarrow> state" where
  "logInfo message s = s\<lparr>console := console s @ [(Cout, ''Info: '' @ message)]\<rparr>"

definition addUser :: "User \<Rightarrow> state \<Rightarrow> bool \<times> state" where
  "addUser user s =
     (if \<not> validate user then (False, logError ''Invalid user data'' s)
      else if map_find (users s) (getEmail user) \<noteq> None
        then (False, logError ''User already exists'' s)
      else (True, logInfo ''User added successfully''
              (s\<lparr>users := map_assign (getEmail user) user (users s)\<rparr>)))"

definition getUser :: "string \<Rightarrow> state \<Rightarrow> User option" where
  "getUser e s = map_find (users s) e"

fun adults_loop :: "User list \<Rightarrow> user_map \<Rightarrow> User list" where
  "adults_loop adults [] = adults"
| "adults_loop adults (pair # rest) =
     adults_loop (if isAdult (snd pair) then adults @ [snd pair] else adults) rest"

definition getAdultUsers :: "state \<Rightarrow> User list" where
  "getAdultUsers s = adults_loop [] (users s)"

definition countUsers :: "state \<Rightarrow> nat" where
  "countUsers s = length (users s)"

definition removeUser :: "string \<Rightarrow> state \<Rightarrow> bool \<times> state" where
  "removeUser e s =
     (if map_find (users s) e = None then (False, s)
      else (True, s\<lparr>users := map_erase e (users s)\<rparr>))"

definition clear :: "state \<Rightarrow> state" where
  "clear s = s\<lparr>users := []\<rparr>"

text \<open>A freshly constructed manager, and the runs of its three mutating operations.\<close>

definition initial :: state where
  "initial = \<lparr>users = [], console = []\<rparr>"

datatype operation = Insert User | Remove string | Clear

fun step :: "state \<Rightarrow> operation \<Rightarrow> state" where
  "step s (Insert u) = snd (addUser u s)"
| "step s (Remove e) = snd (removeUser e s)"
| "step s Clear = clear s"

definition run :: "operation list \<Rightarrow> state" where
  "run ops = foldl step initial ops"

text \<open>
  The registry invariant: every entry is filed under its own record's email, and no
  key occurs twice (the keys are in fact strictly increasing).
\<close>

definition registry_inv :: "state \<Rightarrow> bool" where
  "registry_inv s =
     ((\<forall>(k, r) \<in> set (users s). k = email r) \<and>
      distinct (map fst (users s)) \<and> map_ordered (users s))"


subsection \<open>Class \<^verbatim>\<open>DataProcessor\<close>\<close>

text \<open>
  \<^verbatim>\<open>trim\<close>. Positions are below \<open>2 ^ 64\<close>. The length \<open>last - first + 1\<close> is
  computed on \<^verbatim>\<open>size_t\<close>; it does not wrap when the second search succeeds, because
  then \<open>first \<le> last\<close> and \<open>last\<close> is an index of the string. The second search
  cannot fail once the first has succeeded (lemma \<open>trim_positions\<close>); that branch is
  written out with \<open>npos = 2 ^ 64 - 1\<close> and the wrap-around all the same.
\<close>

definition trim :: "string \<Rightarrow> string" where
  "trim str =
     (case find_first_not_of str (CHR '' '') of
        None \<Rightarrow> []
      | Some first \<Rightarrow>
          (case find_last_not_of str (CHR '' '') of
             Some last' \<Rightarrow> substr str first (Some (last' - first + 1))
           | None \<Rightarrow> substr str first (Some ((2 ^ 64 - 1 - first + 1) mod 2 ^ 64))))"

text \<open>
  \<^verbatim>\<open>parseUserData\<close>. When the first search fails, \<open>pos1 + 1\<close> is \<open>npos + 1\<close>, which
  wraps to \<open>0\<close> on \<^verbatim>\<open>size_t\<close>: the second search then starts at the beginning. Every
  exception of \<^verbatim>\<open>stoi\<close> is caught and turned into the null result.
\<close>

definition parseUserData :: "string \<Rightarrow> User option" where
  "parseUserData data =
     (let pos1 = string_find data (CHR '','') 0;
          pos2 = string_find data (CHR '','') (case pos1 of None \<Rightarrow> 0 | Some p \<Rightarrow> p + 1)
      in case (pos1, pos2) of
           (Some p1, Some p2) \<Rightarrow>
             (let name' = trim (substr data 0 (Some p1));
                  ageStr = trim (substr data (p1 + 1) (Some (p2 - p1 - 1)));
                  email' = trim (substr data (p2 + 1) None)
              in case stoi ageStr of
                   Inl e \<Rightarrow> None
                 | Inr age' \<Rightarrow> Some \<lparr>name = name', age = age', email = email'\<rparr>)
         | _ \<Rightarrow> None)"

fun batch_loop :: "User list \<Rightarrow> string list \<Rightarrow> User list" where
  "batch_loop users' [] = users'"
| "batch_loop users' (data # dataList) =
     batch_loop
       (case parseUserData data of
          None \<Rightarrow> users'
        | Some user \<Rightarrow> if validate user then users' @ [user] else users')
       dataList"

definition batchProcessUsers :: "string list \<Rightarrow> User list" where
  "batchProcessUsers dataList = batch_loop [] dataList"

text \<open>
  \<^verbatim>\<open>calculateAverageAge\<close>. The loop adds the ages into an \<^verbatim>\<open>int\<close>; an addition that
  leaves the range of \<^verbatim>\<open>int\<close> is undefined in C++ and wraps modulo \<open>2 ^ 32\<close> on the
  usual targets, which is what addition of words does. The conversions of the total
  and of the size to \<^verbatim>\<open>double\<close> are exact (sizes are below \<open>2 ^ 53\<close>); the division
  yields the exact quotient rounded to a \<^verbatim>\<open>double\<close>. The rounding is the parameter
  \<open>rnd\<close>, about which nothing is assumed; the literal \<^verbatim>\<open>0.0\<close> is exact.
\<close>

fun total_loop :: "cint \<Rightarrow> User list \<Rightarrow> cint" where
  "total_loop total' [] = total'"
| "total_loop total' (user # rest) = total_loop (total' + getAge user) rest"

definition calculateAverageAge :: "(real \<Rightarrow> real) \<Rightarrow> User list \<Rightarrow> real" where
  "calculateAverageAge rnd users' =
     (if users' = [] then 0
      else rnd (real_of_int (sint (total_loop 0 users')) / real (length users')))"

text \<open>
  \<^verbatim>\<open>sortByAge\<close>. \<^verbatim>\<open>std::sort\<close> is library code: the standard fixes its result as a
  permutation of the input in which no element precedes, by the comparison, an element
  placed before it, and leaves the algorithm open. The model is one such algorithm, an
  insertion sort that looks at the elements through the comparison only. \<open>age_order\<close> is
  the lambda handed to \<^verbatim>\<open>std::sort\<close>.
\<close>

fun sort_insert :: "('a \<Rightarrow> 'a \<Rightarrow> bool) \<Rightarrow> 'a \<Rightarrow> 'a list \<Rightarrow> 'a list" where
  "sort_insert cmp x [] = [x]"
| "sort_insert cmp x (y # ys) =
     (if cmp x y then x # y # ys else y # sort_insert cmp x ys)"

fun std_sort :: "('a \<Rightarrow> 'a \<Rightarrow> bool) \<Rightarrow> 'a list \<Rightarrow> 'a list" where
  "std_sort cmp [] = []"
| "std_sort cmp (x # xs) = sort_insert cmp x (std_sort cmp xs)"

definition age_order :: "bool \<Rightarrow> User \<Rightarrow> User \<Rightarrow> bool" where
  "age_order ascending a b =
     (if ascending then getAge a <s getAge b else getAge b <s getAge a)"

definition sortByAge :: "User list \<Rightarrow> bool \<Rightarrow> User list" where
  "sortByAge users' ascending = std_sort (age_order ascending) users'"

subsection \<open>The input format, in the specification's words\<close>

text \<open>
  A line has the shape \<open>NAME, AGE, EMAIL\<close>: the first field ends at the first comma,
  the second at the next comma, the third is the rest of the line. A field is stripped
  of the spaces at both ends.
\<close>

definition not_comma :: "char \<Rightarrow> bool" where
  "not_comma c = (c \<noteq> CHR '','')"

definition after_comma :: "string \<Rightarrow> string" where
  "after_comma s = drop 1 (dropWhile not_comma s)"

definition field1 :: "string \<Rightarrow> string" where
  "field1 s = takeWhile not_comma s"

definition field2 :: "string \<Rightarrow> string" where
  "field2 s = takeWhile not_comma (after_comma s)"

definition field3 :: "string \<Rightarrow> string" where
  "field3 s = after_comma (after_comma s)"

definition is_space :: "char \<Rightarrow> bool" where
  "is_space c = (c = CHR '' '')"

definition strip_spaces :: "string \<Rightarrow> string" where
  "strip_spaces s = rev (dropWhile is_space (rev (dropWhile is_space s)))"

text \<open>
  The number a run of decimal digits denotes, and the number denoted by an optional
  sign followed by digits.
\<close>

definition decimal :: "string \<Rightarrow> int" where
  "decimal ds = foldl (\<lambda>a c. 10 * a + digit_value c) 0 ds"

definition signed_value :: "string \<Rightarrow> string \<Rightarrow> int" where
  "signed_value sg ds = (if sg = ''-'' then - decimal ds else decimal ds)"


text \<open>
  No addition of the averaging loop, started with the given total, leaves the range of
  a 32-bit \<open>int\<close>.
\<close>

fun no_overflow :: "cint \<Rightarrow> User list \<Rightarrow> bool" where
  "no_overflow total' [] = True"
| "no_overflow total' (user # rest) =
     (- (2 ^ 31) \<le> sint total' + sint (age user) \<and> sint total' + sint (age user) \<le> 2 ^ 31 - 1 \<and>
      no_overflow (total' + age user) rest)"

text \<open>A parse result is kept by the batch when it is a record and the record validates.\<close>

definition kept :: "User option \<Rightarrow> bool" where
  "kept r = (case r of None \<Rightarrow> False | Some u \<Rightarrow> validate u)"

text \<open>The three users that \<^verbatim>\<open>main\<close> constructs.\<close>

definition user1 :: User where
  "user1 = \<lparr>name = ''Alice'', age = 25, email = ''alice@example.com''\<rparr>"

definition user2 :: User where
  "user2 = \<lparr>name = ''Bob'', age = 30, email = ''bob@example.com''\<rparr>"

definition user3 :: User where
  "user3 = \<lparr>name = ''Charlie'', age = 17, email = ''charlie@example.com''\<rparr>"


section \<open>Properties\<close>

subsection \<open>Searching a string\<close>

lemma find_loop_None: "find_loop c xs i = None \<longleftrightarrow> c \<notin> set xs"
  by (induction xs arbitrary: i) auto

lemma string_find_0_None: "string_find s c 0 = None \<longleftrightarrow> c \<notin> set s"
  by (simp add: string_find_def find_loop_None)

lemma length_takeWhile_neq_less:
  "c \<in> set xs \<Longrightarrow> length (takeWhile (\<lambda>x. x \<noteq> c) xs) < length xs"
  by (induction xs) auto

lemma find_loop_eq:
  "find_loop c xs i = (if c \<in> set xs then Some (i + length (takeWhile (\<lambda>x. x \<noteq> c) xs)) else None)"
  by (induction xs arbitrary: i) auto

lemma string_find_less:
  assumes "string_find s c pos = Some p"
  shows "pos \<le> p \<and> p < length s"
proof -
  from assms have m: "c \<in> set (drop pos s)"
    and p: "p = pos + length (takeWhile (\<lambda>x. x \<noteq> c) (drop pos s))"
    by (auto simp: string_find_def find_loop_eq split: if_splits)
  from m have "length (takeWhile (\<lambda>x. x \<noteq> c) (drop pos s)) < length (drop pos s)"
    by (rule length_takeWhile_neq_less)
  with p show ?thesis by simp
qed

lemma parse_positions:
  assumes "string_find s c 0 = Some p1" and "string_find s c (p1 + 1) = Some p2"
  shows "p1 < p2 \<and> p1 + 1 \<le> length s \<and> p2 + 1 \<le> length s"
  using string_find_less [OF assms(1)] string_find_less [OF assms(2)] by simp

lemma first_not_loop_eq:
  "first_not_loop c xs i =
     (if \<exists>x \<in> set xs. x \<noteq> c then Some (i + length (takeWhile (\<lambda>x. x = c) xs)) else None)"
  by (induction xs arbitrary: i) auto

lemma last_not_loop_eq:
  "n \<le> length s \<Longrightarrow>
   last_not_loop c s n =
     (case length (dropWhile (\<lambda>x. x = c) (rev (take n s))) of 0 \<Rightarrow> None | Suc k \<Rightarrow> Some k)"
proof (induction n)
  case 0
  then show ?case by simp
next
  case (Suc n)
  then have "take (Suc n) s = take n s @ [s ! n]"
    by (simp add: take_Suc_conv_app_nth)
  with Suc show ?case by simp
qed

lemma find_last_not_of_eq:
  "find_last_not_of s c =
     (case length (dropWhile (\<lambda>x. x = c) (rev s)) of 0 \<Rightarrow> None | Suc k \<Rightarrow> Some k)"
  by (simp add: find_last_not_of_def last_not_loop_eq)

lemma rev_dropWhile_rev: "rev (dropWhile P (rev xs)) = take (length (dropWhile P (rev xs))) xs"
proof -
  have "rev xs = takeWhile P (rev xs) @ dropWhile P (rev xs)" by simp
  then have "xs = rev (dropWhile P (rev xs)) @ rev (takeWhile P (rev xs))"
    by (metis rev_append rev_rev_ident)
  then have "take (length (rev (dropWhile P (rev xs)))) xs = rev (dropWhile P (rev xs))"
    by (metis append_eq_conv_conj)
  then show ?thesis by simp
qed


lemma not_of_positions:
  assumes ex: "\<exists>x \<in> set s. x \<noteq> c"
  shows "\<exists>k. find_first_not_of s c = Some (length (takeWhile (\<lambda>x. x = c) s)) \<and>
             find_last_not_of s c = Some (k + length (takeWhile (\<lambda>x. x = c) s)) \<and>
             k + length (takeWhile (\<lambda>x. x = c) s) < length s \<and>
             rev (dropWhile (\<lambda>x. x = c) (rev (dropWhile (\<lambda>x. x = c) s))) =
               take (Suc k) (drop (length (takeWhile (\<lambda>x. x = c) s)) s)"
proof -
  define f where "f = length (takeWhile (\<lambda>x. x = c) s)"
  define t where "t = dropWhile (\<lambda>x. x = c) s"
  have first: "find_first_not_of s c = Some f"
    using ex by (simp add: find_first_not_of_def first_not_loop_eq f_def)
  have t: "t = drop f s"
    unfolding t_def f_def by (rule dropWhile_eq_drop)
  from ex have tne: "\<exists>x \<in> set (rev t). x \<noteq> c"
    unfolding t_def by (induction s) auto
  have s: "rev s = rev t @ rev (take f s)"
    unfolding t by (metis append_take_drop_id rev_append)
  have "dropWhile (\<lambda>x. x = c) (rev s) = dropWhile (\<lambda>x. x = c) (rev t) @ rev (take f s)"
    unfolding s using tne by (auto intro: dropWhile_append1)
  then have len: "length (dropWhile (\<lambda>x. x = c) (rev s)) =
      length (dropWhile (\<lambda>x. x = c) (rev t)) + f"
    by (simp add: f_def min_absorb2 length_takeWhile_le)
  from tne have "length (dropWhile (\<lambda>x. x = c) (rev t)) \<noteq> 0"
    by auto
  then obtain k where k: "length (dropWhile (\<lambda>x. x = c) (rev t)) = Suc k"
    by (cases "length (dropWhile (\<lambda>x. x = c) (rev t))") auto
  have last: "find_last_not_of s c = Some (k + f)"
    using len k by (simp add: find_last_not_of_eq)
  have "length (dropWhile (\<lambda>x. x = c) (rev s)) \<le> length s"
    using length_dropWhile_le [of "\<lambda>x. x = c" "rev s"] by simp
  with len k have bound: "k + f < length s" by simp
  have "rev (dropWhile (\<lambda>x. x = c) (rev t)) = take (Suc k) t"
    unfolding rev_dropWhile_rev [of "\<lambda>x. x = c" t] k ..
  with first last bound show ?thesis
    unfolding t_def [symmetric] f_def [symmetric] t by blast
qed

lemma find_first_not_of_less:
  "find_first_not_of s c = Some first \<Longrightarrow> first < length s"
  using not_of_positions [of s c]
  by (auto simp: find_first_not_of_def first_not_loop_eq split: if_splits)

lemma trim_positions:
  assumes "find_first_not_of s c = Some first"
  shows "\<exists>last. find_last_not_of s c = Some last \<and> first \<le> last \<and> last < length s"
proof -
  from assms have ex: "\<exists>x \<in> set s. x \<noteq> c"
    by (auto simp: find_first_not_of_def first_not_loop_eq split: if_splits)
  from not_of_positions [OF ex] assms show ?thesis by auto
qed

lemma trim_eq_strip_spaces: "trim s = strip_spaces s"
proof (cases "\<exists>x \<in> set s. x \<noteq> CHR '' ''")
  case False
  then have "dropWhile is_space s = []"
    by (auto simp: is_space_def)
  then have "strip_spaces s = []"
    by (simp only: strip_spaces_def rev.simps dropWhile.simps)
  moreover from False have "trim s = []"
    by (simp add: trim_def find_first_not_of_def first_not_loop_eq)
  ultimately show ?thesis by simp
next
  case True
  have isp: "is_space = (\<lambda>x. x = CHR '' '')"
    by (auto simp: is_space_def)
  from not_of_positions [OF True] show ?thesis
    by (auto simp: trim_def substr_def strip_spaces_def isp)
qed

lemma set_strip_spaces_subset: "set (strip_spaces s) \<subseteq> set s"
proof -
  have "set (strip_spaces s) \<subseteq> set (rev (dropWhile is_space s))"
    unfolding strip_spaces_def set_rev by (auto dest: set_dropWhileD)
  also have "\<dots> \<subseteq> set s"
    by (auto dest: set_dropWhileD)
  finally show ?thesis .
qed

subsection \<open>The map operations\<close>

lemma map_find_eq_map_of: "map_find m k = map_of m k"
  by (induction m) auto

lemma map_find_None: "map_find m k = None \<longleftrightarrow> k \<notin> fst ` set m"
  by (simp add: map_find_eq_map_of map_of_eq_None_iff)

lemma map_of_map_assign: "map_of (map_assign k v m) = (map_of m)(k \<mapsto> v)"
  by (induction m) (auto simp: fun_upd_twist)

lemma set_map_assign_new:
  "k \<notin> fst ` set m \<Longrightarrow> set (map_assign k v m) = insert (k, v) (set m)"
  by (induction m) (auto split: if_splits)

lemma length_map_assign_new:
  "k \<notin> fst ` set m \<Longrightarrow> length (map_assign k v m) = Suc (length m)"
  by (induction m) auto

lemma distinct_map_assign_new:
  "k \<notin> fst ` set m \<Longrightarrow> distinct (map fst m) \<Longrightarrow> distinct (map fst (map_assign k v m))"
  by (induction m) (auto simp: set_map_assign_new)

lemma map_fst_map_assign: "set (map fst (map_assign k v m)) = insert k (set (map fst m))"
proof (induction m)
  case Nil
  show ?case by simp
next
  case (Cons p m)
  obtain k' v' where p: "p = (k', v')" by (cases p)
  have "set (map fst ((k', v') # map_assign k v m)) = insert k (set (map fst ((k', v') # m)))"
    unfolding list.map list.set Cons.IH by (simp add: insert_commute)
  then show ?case by (simp add: p)
qed

lemma keys_map_assign: "fst ` set (map_assign k v m) = insert k (fst ` set m)"
  using map_fst_map_assign [of k v m] by simp

lemma map_ordered_assign: "map_ordered m \<Longrightarrow> map_ordered (map_assign k v m)"
proof (induction m)
  case Nil
  then show ?case by (simp add: map_ordered_def)
next
  case (Cons p m)
  obtain k' v' where p: "p = (k', v')" by (cases p)
  from Cons.prems have tl: "map_ordered m" and hd: "\<forall>x \<in> fst ` set m. k' < x"
    by (auto simp: map_ordered_def p)
  show ?case
  proof (cases "k = k'")
    case True
    with Cons.prems show ?thesis by (simp add: map_ordered_def p)
  next
    case False
    show ?thesis
    proof (cases "k < k'")
      case True
      with Cons.prems show ?thesis by (auto simp: map_ordered_def p)
    next
      case ge: False
      with False have "k' < k" by simp
      with hd have "\<forall>x \<in> fst ` set (map_assign k v m). k' < x"
        by (simp add: keys_map_assign)
      with Cons.IH [OF tl] False ge show ?thesis
        by (simp add: map_ordered_def p image_iff)
    qed
  qed
qed

lemma set_map_erase_subset: "set (map_erase k m) \<subseteq> set m"
  by (induction m) (auto split: if_splits)

lemma distinct_map_erase: "distinct (map fst m) \<Longrightarrow> distinct (map fst (map_erase k m))"
proof (induction m)
  case Nil
  then show ?case by simp
next
  case (Cons p m)
  have "fst ` set (map_erase k m) \<subseteq> fst ` set m"
    using set_map_erase_subset [of k m] by blast
  with Cons show ?case by (cases p) auto
qed

lemma map_ordered_erase: "map_ordered m \<Longrightarrow> map_ordered (map_erase k m)"
proof (induction m)
  case Nil
  then show ?case by simp
next
  case (Cons p m)
  have "fst ` set (map_erase k m) \<subseteq> fst ` set m"
    using set_map_erase_subset [of k m] by blast
  with Cons show ?case by (cases p) (force simp: map_ordered_def)
qed


subsection \<open>Validation\<close>

text \<open>
  Claim C1. For every record, validated or not, \<open>validate\<close> is true exactly when the
  name is non-empty, the age (read as a signed integer) lies between 18 and 150
  inclusive, and the email contains the character \<open>@\<close>; the three conditions are
  combined by conjunction.
\<close>

theorem validate_iff:
  "validate u \<longleftrightarrow>
     name u \<noteq> [] \<and> (18 \<le> sint (age u) \<and> sint (age u) \<le> 150) \<and> CHR ''@'' \<in> set (email u)"
  by (simp add: validate_def validateName_def validateAge_def validateEmail_def
      string_find_0_None word_sle_eq)

lemma validate_user1: "validate user1"
  by (simp add: user1_def validate_def validateName_def validateAge_def validateEmail_def
      string_find_def)

subsection \<open>Inserting into the registry\<close>

lemma stored_email_iff_key:
  "registry_inv s \<Longrightarrow>
     (\<exists>r \<in> snd ` set (users s). email r = e) \<longleftrightarrow> e \<in> fst ` set (users s)"
  by (force simp: registry_inv_def)

text \<open>
  Claim C2. For every registry state \<open>s\<close> and record \<open>u\<close>: when \<open>u\<close> fails validation or
  an entry is already stored under its email, \<open>addUser\<close> returns false, leaves the
  mapping as it was and writes one line to the error stream; otherwise it returns true,
  the mapping becomes the old one updated at key \<open>email u\<close> with \<open>u\<close> (one entry more),
  and one line goes to the standard output. Hence repeating an insert returns false
  and leaves the count as it was, and so does inserting any record with the email of
  a record that was just stored. "Stored under its email" and "a stored record has
  this email" are the same in every state that satisfies the registry invariant.
\<close>

theorem addUser_spec:
  "(\<not> validate u \<or> email u \<in> fst ` set (users s) \<longrightarrow>
      fst (addUser u s) = False \<and> users (snd (addUser u s)) = users s \<and>
      (\<exists>msg. console (snd (addUser u s)) = console s @ [(Cerr, msg)])) \<and>
   (validate u \<and> email u \<notin> fst ` set (users s) \<longrightarrow>
      fst (addUser u s) = True \<and>
      map_of (users (snd (addUser u s))) = (map_of (users s))(email u \<mapsto> u) \<and>
      set (users (snd (addUser u s))) = insert (email u, u) (set (users s)) \<and>
      countUsers (snd (addUser u s)) = countUsers s + 1 \<and>
      (\<exists>msg. console (snd (addUser u s)) = console s @ [(Cout, msg)])) \<and>
   fst (addUser u (snd (addUser u s))) = False \<and>
   countUsers (snd (addUser u (snd (addUser u s)))) = countUsers (snd (addUser u s)) \<and>
   (fst (addUser u s) \<and> email u' = email u \<longrightarrow>
      fst (addUser u' (snd (addUser u s))) = False \<and>
      countUsers (snd (addUser u' (snd (addUser u s)))) = countUsers (snd (addUser u s))) \<and>
   (registry_inv s \<longrightarrow>
      (email u \<in> fst ` set (users s) \<longleftrightarrow> (\<exists>r \<in> snd ` set (users s). email r = email u)))"
proof -
  have bad: "\<not> validate u \<or> email u \<in> fst ` set (users s) \<longrightarrow>
      fst (addUser u s) = False \<and> users (snd (addUser u s)) = users s \<and>
      (\<exists>msg. console (snd (addUser u s)) = console s @ [(Cerr, msg)])"
    by (auto simp: addUser_def logError_def getEmail_def map_find_None)
  have good: "validate u \<and> email u \<notin> fst ` set (users s) \<longrightarrow>
      fst (addUser u s) = True \<and>
      map_of (users (snd (addUser u s))) = (map_of (users s))(email u \<mapsto> u) \<and>
      set (users (snd (addUser u s))) = insert (email u, u) (set (users s)) \<and>
      countUsers (snd (addUser u s)) = countUsers s + 1 \<and>
      (\<exists>msg. console (snd (addUser u s)) = console s @ [(Cout, msg)])"
    by (simp add: addUser_def logInfo_def getEmail_def countUsers_def map_find_None
        map_of_map_assign set_map_assign_new length_map_assign_new)
  have again: "fst (addUser u' (snd (addUser u s))) = False \<and>
      countUsers (snd (addUser u' (snd (addUser u s)))) = countUsers (snd (addUser u s))"
    if "u' = u \<or> fst (addUser u s) \<and> email u' = email u" for u'
    using that
    by (force simp: addUser_def logError_def logInfo_def getEmail_def countUsers_def
        map_find_None keys_map_assign)
  have twice: "fst (addUser u (snd (addUser u s))) = False"
    "countUsers (snd (addUser u (snd (addUser u s)))) = countUsers (snd (addUser u s))"
    using again [of u] by simp_all
  have same_email: "fst (addUser u s) \<and> email u' = email u \<longrightarrow>
      fst (addUser u' (snd (addUser u s))) = False \<and>
      countUsers (snd (addUser u' (snd (addUser u s)))) = countUsers (snd (addUser u s))"
    using again [of u'] by blast
  have stored: "registry_inv s \<longrightarrow>
      (email u \<in> fst ` set (users s) \<longleftrightarrow> (\<exists>r \<in> snd ` set (users s). email r = email u))"
    using stored_email_iff_key [of s "email u"] by blast
  from bad good twice same_email stored show ?thesis
    by (intro conjI)
qed

text \<open>
  Scenarios A and B of the specification: Alice is inserted into the fresh registry,
  and inserting her again is refused.
\<close>

theorem addUser_spec_witness:
  "validate user1 \<and> email user1 \<notin> fst ` set (users initial) \<and> registry_inv initial \<and>
   fst (addUser user1 initial) = True \<and> countUsers (snd (addUser user1 initial)) = 1 \<and>
   fst (addUser user1 (snd (addUser user1 initial))) = False \<and>
   countUsers (snd (addUser user1 (snd (addUser user1 initial)))) = 1 \<and>
   \<not> validate user3 \<and> fst (addUser user3 initial) = False \<and>
   users (snd (addUser user3 initial)) = users initial"
proof -
  have h: "validate user1 \<and> email user1 \<notin> fst ` set (users initial)"
    by (simp add: validate_user1 initial_def)
  have i: "registry_inv initial"
    by (simp add: registry_inv_def initial_def map_ordered_def)
  have c: "countUsers initial = 0"
    by (simp add: countUsers_def initial_def)
  have m: "\<not> validate user3"
    by (simp add: user3_def validate_def validateAge_def)
  from h c addUser_spec [of user1 initial user1]
  have "fst (addUser user1 initial) = True \<and> countUsers (snd (addUser user1 initial)) = 1 \<and>
      fst (addUser user1 (snd (addUser user1 initial))) = False \<and>
      countUsers (snd (addUser user1 (snd (addUser user1 initial)))) = 1"
    by simp
  moreover from m addUser_spec [of user3 initial user3]
  have "fst (addUser user3 initial) = False \<and> users (snd (addUser user3 initial)) = users initial"
    by blast
  ultimately show ?thesis
    using h i m by blast
qed

subsection \<open>The adult users\<close>

lemma adults_loop_eq: "adults_loop acc m = acc @ filter isAdult (map snd m)"
  by (induction m arbitrary: acc) auto

text \<open>
  Claim C6. For every registry state, \<open>getAdultUsers\<close> returns exactly the stored
  records whose age is at least 18: as a set, and indeed as the list of stored records
  in key order with the others left out. \<open>isAdult\<close> is true exactly when the age is
  at least 18, whatever \<open>validate\<close> says.
\<close>

theorem getAdultUsers_exact:
  "set (getAdultUsers s) = {r \<in> snd ` set (users s). 18 \<le> sint (age r)} \<and>
   getAdultUsers s = filter (\<lambda>r. 18 \<le> sint (age r)) (map snd (users s)) \<and>
   (isAdult r \<longleftrightarrow> 18 \<le> sint (age r))"
  by (auto simp: getAdultUsers_def adults_loop_eq isAdult_def word_sle_eq cong: filter_cong)

text \<open>A record that is invalid (empty name, age 200, no \<open>@\<close>) but adult is returned.\<close>

theorem getAdultUsers_exact_witness:
  "\<not> validate \<lparr>name = [], age = 200, email = ''x''\<rparr> \<and>
   isAdult \<lparr>name = [], age = 200, email = ''x''\<rparr> \<and>
   getAdultUsers \<lparr>users = [(''a'', \<lparr>name = ''A'', age = 17, email = ''a''\<rparr>),
                            (''x'', \<lparr>name = [], age = 200, email = ''x''\<rparr>)], console = []\<rparr>
     = [\<lparr>name = [], age = 200, email = ''x''\<rparr>]"
  using getAdultUsers_exact [of "\<lparr>users = [(''a'', \<lparr>name = ''A'', age = 17, email = ''a''\<rparr>),
                            (''x'', \<lparr>name = [], age = 200, email = ''x''\<rparr>)], console = []\<rparr>"
      "\<lparr>name = [], age = 200, email = ''x''\<rparr>"]
  by (simp add: validate_def validateName_def)

subsection \<open>The registry invariant\<close>

lemma registry_inv_initial: "registry_inv initial"
  by (simp add: registry_inv_def initial_def map_ordered_def)

lemma registry_inv_addUser: "registry_inv s \<Longrightarrow> registry_inv (snd (addUser u s))"
  by (auto simp: registry_inv_def addUser_def logError_def logInfo_def getEmail_def
      map_find_None set_map_assign_new distinct_map_assign_new map_ordered_assign)

lemma registry_inv_removeUser: "registry_inv s \<Longrightarrow> registry_inv (snd (removeUser e s))"
  using set_map_erase_subset [of e "users s"]
  by (auto simp: registry_inv_def removeUser_def distinct_map_erase map_ordered_erase)

lemma registry_inv_clear: "registry_inv (clear s)"
  by (simp add: registry_inv_def clear_def map_ordered_def)

lemma registry_inv_step: "registry_inv s \<Longrightarrow> registry_inv (step s x)"
  by (cases x) (simp_all add: registry_inv_addUser registry_inv_removeUser registry_inv_clear)

lemma registry_inv_foldl: "registry_inv s \<Longrightarrow> registry_inv (foldl step s ops)"
  by (induction ops arbitrary: s) (simp_all add: registry_inv_step)

lemma registry_inv_emails:
  assumes "registry_inv s"
  shows "distinct (map (email \<circ> snd) (users s))"
proof -
  from assms have "map (email \<circ> snd) (users s) = map fst (users s)"
    by (auto simp: registry_inv_def)
  moreover from assms have "distinct (map fst (users s))"
    by (simp add: registry_inv_def)
  ultimately show ?thesis by (simp only:)
qed

text \<open>
  Claim C9. In every state reached from the fresh registry by any sequence of
  \<open>addUser\<close>, \<open>removeUser\<close> and \<open>clear\<close> calls, every entry's key is the email of the
  record stored under it, no key occurs twice, and no two stored records share an
  email. Each of the three operations preserves the invariant from any state that
  satisfies it.
\<close>

theorem run_registry_inv:
  "registry_inv (run ops) \<and>
   (\<forall>(k, r) \<in> set (users (run ops)). k = email r) \<and>
   distinct (map fst (users (run ops))) \<and>
   distinct (map (email \<circ> snd) (users (run ops))) \<and>
   (registry_inv s \<longrightarrow>
      registry_inv (snd (addUser u s)) \<and> registry_inv (snd (removeUser e s)) \<and>
      registry_inv (clear s))"
proof -
  have inv: "registry_inv (run ops)"
    unfolding run_def by (rule registry_inv_foldl [OF registry_inv_initial])
  from inv have keys: "\<forall>(k, r) \<in> set (users (run ops)). k = email r"
    and dist: "distinct (map fst (users (run ops)))"
    by (simp_all add: registry_inv_def)
  have pres: "registry_inv s \<longrightarrow>
      registry_inv (snd (addUser u s)) \<and> registry_inv (snd (removeUser e s)) \<and>
      registry_inv (clear s)"
    by (simp add: registry_inv_addUser registry_inv_removeUser registry_inv_clear)
  from inv keys dist registry_inv_emails [OF inv] pres show ?thesis
    by (intro conjI)
qed

text \<open>
  A run of \<^verbatim>\<open>main\<close>'s users: Bob and Alice go in, the second Alice and the minor
  Charlie are refused, Bob is removed; the state reached satisfies the invariant and
  so does the state after one more insertion.
\<close>

theorem run_registry_inv_witness:
  "users (run [Insert user2, Insert user1, Insert user1, Insert user3,
               Remove ''bob@example.com'']) = [(''alice@example.com'', user1)] \<and>
   registry_inv (run [Insert user2, Insert user1, Insert user1, Insert user3,
               Remove ''bob@example.com'']) \<and>
   registry_inv (snd (addUser user2 (run [Insert user2, Insert user1, Insert user1,
               Insert user3, Remove ''bob@example.com''])))"
proof -
  let ?s = "run [Insert user2, Insert user1, Insert user1, Insert user3,
               Remove ''bob@example.com'']"
  have "users ?s = [(''alice@example.com'', user1)]"
    by (simp add: run_def initial_def addUser_def removeUser_def logError_def logInfo_def
        getEmail_def validate_def validateName_def validateAge_def validateEmail_def
        string_find_def user1_def user2_def user3_def)
  moreover have "registry_inv ?s"
    using run_registry_inv [of "[Insert user2, Insert user1, Insert user1, Insert user3,
               Remove ''bob@example.com'']"] by blast
  moreover have "registry_inv (snd (addUser user2 ?s))"
    using run_registry_inv [of "[Insert user2, Insert user1, Insert user1, Insert user3,
               Remove ''bob@example.com'']" ?s user2] by blast
  ultimately show ?thesis by (intro conjI)
qed

subsection \<open>Parsing a line\<close>

lemma count_list_after_comma:
  "count_list s (CHR '','') =
     (if CHR '','' \<in> set s then Suc (count_list (after_comma s) (CHR '','')) else 0)"
  by (induction s) (auto simp: after_comma_def not_comma_def)

lemma fewer_than_two_commas:
  "count_list s (CHR '','') < 2 \<longleftrightarrow>
     \<not> (CHR '','' \<in> set s \<and> CHR '','' \<in> set (after_comma s))"
  using count_list_after_comma [of s] count_list_after_comma [of "after_comma s"]
  by (auto split: if_splits)

lemma not_comma_eq: "not_comma = (\<lambda>x. x \<noteq> CHR '','')"
  by (auto simp: not_comma_def)

lemma drop_Suc_takeWhile: "drop (Suc (length (takeWhile P s))) s = drop 1 (dropWhile P s)"
  by (simp add: dropWhile_eq_drop drop_Suc drop_tl)

lemma parseUserData_fields:
  "parseUserData s =
     (if count_list s (CHR '','') < 2 then None
      else case stoi (strip_spaces (field2 s)) of
             Inl e \<Rightarrow> None
           | Inr a \<Rightarrow> Some \<lparr>name = strip_spaces (field1 s), age = a,
                              email = strip_spaces (field3 s)\<rparr>)"
proof (cases "CHR '','' \<in> set s")
  case False
  then show ?thesis
    by (simp add: parseUserData_def string_find_def find_loop_eq fewer_than_two_commas)
next
  case c1: True
  define p1 where "p1 = length (takeWhile not_comma s)"
  have pos1: "string_find s (CHR '','') 0 = Some p1"
    using c1 by (simp add: string_find_def find_loop_eq p1_def not_comma_eq)
  have rest: "drop (Suc p1) s = after_comma s"
    unfolding after_comma_def p1_def by (rule drop_Suc_takeWhile)
  have f1: "substr s 0 (Some p1) = field1 s"
    unfolding substr_def field1_def p1_def by (simp add: takeWhile_eq_take [symmetric])
  show ?thesis
  proof (cases "CHR '','' \<in> set (after_comma s)")
    case False
    then show ?thesis
      using c1 pos1 rest
      by (simp add: parseUserData_def string_find_def find_loop_eq fewer_than_two_commas)
  next
    case c2: True
    define n where "n = length (takeWhile not_comma (after_comma s))"
    have pos2: "string_find s (CHR '','') (p1 + 1) = Some (p1 + 1 + n)"
      using c2 by (simp add: string_find_def find_loop_eq rest n_def not_comma_eq)
    have f2: "substr s (p1 + 1) (Some (p1 + 1 + n - p1 - 1)) = field2 s"
      unfolding substr_def field2_def n_def
      by (simp add: rest takeWhile_eq_take [symmetric])
    have "drop (p1 + 1 + n + 1) s = drop (Suc n) (drop (Suc p1) s)"
      by (simp add: add.commute)
    also have "\<dots> = field3 s"
      unfolding rest field3_def n_def drop_Suc_takeWhile after_comma_def [of "after_comma s"] ..
    finally have f3: "substr s (p1 + 1 + n + 1) None = field3 s"
      by (simp add: substr_def)
    from c1 c2 have two: "\<not> count_list s (CHR '','') < 2"
      by (simp add: fewer_than_two_commas)
    show ?thesis
      unfolding parseUserData_def Let_def pos1 pos2 option.case prod.case f1 f2 f3
        trim_eq_strip_spaces
      using two by simp
  qed
qed

subsection \<open>Converting the age\<close>

lemma strtol_digits_prefix:
  "\<forall>c \<in> set ds. isdigit c \<Longrightarrow> rest = [] \<or> \<not> isdigit (hd rest) \<Longrightarrow>
   strtol_digits acc (ds @ rest) = foldl (\<lambda>a c. 10 * a + digit_value c) acc ds"
proof (induction ds arbitrary: acc)
  case Nil
  then show ?case by (cases rest) auto
next
  case (Cons d ds)
  then show ?case by simp
qed

lemma foldl_digits_nonneg:
  "\<forall>c \<in> set ds. isdigit c \<Longrightarrow> 0 \<le> acc \<Longrightarrow>
   0 \<le> foldl (\<lambda>a c. 10 * a + digit_value c) acc ds"
  by (induction ds arbitrary: acc) (auto simp: isdigit_def digit_value_def)

lemma decimal_nonneg: "\<forall>c \<in> set ds. isdigit c \<Longrightarrow> 0 \<le> decimal ds"
  by (simp add: decimal_def foldl_digits_nonneg)

lemma isdigit_not_space_sign:
  "isdigit c \<Longrightarrow> \<not> isspace c \<and> c \<noteq> CHR ''-'' \<and> c \<noteq> CHR ''+''"
  by (auto simp: isdigit_def isspace_def)

lemma stoi_digits:
  assumes ds: "ds \<noteq> []" "\<forall>c \<in> set ds. isdigit c"
    and rest: "rest = [] \<or> \<not> isdigit (hd rest)"
  shows "stoi (ds @ rest) =
     (if 2 ^ 31 - 1 < decimal ds then Inl Out_of_range else Inr (word_of_int (decimal ds)))"
    and "stoi (CHR ''+'' # ds @ rest) =
     (if 2 ^ 31 - 1 < decimal ds then Inl Out_of_range else Inr (word_of_int (decimal ds)))"
    and "stoi (CHR ''-'' # ds @ rest) =
     (if - decimal ds < - (2 ^ 31) then Inl Out_of_range else Inr (word_of_int (- decimal ds)))"
proof -
  from ds obtain d ds' where d: "ds = d # ds'" "isdigit d"
    by (cases ds) auto
  have val: "strtol_digits 0 (ds @ rest) = decimal ds"
    using ds(2) rest by (simp only: strtol_digits_prefix decimal_def)
  have nonneg: "0 \<le> decimal ds"
    using ds(2) by (rule decimal_nonneg)
  have sp: "\<not> isspace (CHR ''+'')" "\<not> isspace (CHR ''-'')"
    by (simp_all add: isspace_def)
  note nd = isdigit_not_space_sign [OF d(2)]
  show "stoi (ds @ rest) =
     (if 2 ^ 31 - 1 < decimal ds then Inl Out_of_range else Inr (word_of_int (decimal ds)))"
    using nd nonneg val [unfolded d(1)] d(2) unfolding d(1) stoi_def by (simp add: Let_def)
  show "stoi (CHR ''+'' # ds @ rest) =
     (if 2 ^ 31 - 1 < decimal ds then Inl Out_of_range else Inr (word_of_int (decimal ds)))"
    using sp nonneg val [unfolded d(1)] d(2) unfolding d(1) stoi_def by (simp add: Let_def)
  show "stoi (CHR ''-'' # ds @ rest) =
     (if - decimal ds < - (2 ^ 31) then Inl Out_of_range else Inr (word_of_int (- decimal ds)))"
    using sp nonneg val [unfolded d(1)] d(2) unfolding d(1) stoi_def by (simp add: Let_def)
qed

lemma sint_word_of_int_32:
  "- (2 ^ 31) \<le> v \<Longrightarrow> v \<le> 2 ^ 31 - 1 \<Longrightarrow> sint (word_of_int v :: 32 word) = v"
  by (simp add: sint_sbintrunc' signed_take_bit_int_eq_self)

lemma stoi_signed_prefix:
  assumes "sg = [] \<or> sg = ''+'' \<or> sg = ''-''"
    and "ds \<noteq> []" and "\<forall>c \<in> set ds. isdigit c"
    and "rest = [] \<or> \<not> isdigit (hd rest)"
  shows "stoi (sg @ ds @ rest) =
     (if - (2 ^ 31) \<le> signed_value sg ds \<and> signed_value sg ds \<le> 2 ^ 31 - 1
      then Inr (word_of_int (signed_value sg ds)) else Inl Out_of_range)"
proof -
  have "0 \<le> decimal ds"
    using assms(3) by (rule decimal_nonneg)
  with assms(1) stoi_digits [OF assms(2,3,4)] show ?thesis
    by (auto simp: signed_value_def)
qed





lemmas parse_eval = parseUserData_fields strip_spaces_def field1_def field2_def field3_def
  after_comma_def not_comma_def is_space_def stoi_def isspace_def isdigit_def digit_value_def
  Let_def

subsection \<open>The parser against the input format\<close>




subsection \<open>The batch\<close>

lemma batch_loop_eq:
  "batch_loop acc ds = acc @ map the (filter kept (map parseUserData ds))"
  by (induction ds arbitrary: acc) (auto simp: kept_def split: option.splits)


text \<open>
  Claim C5. \<open>batchProcessUsers\<close> returns, in the order of the lines, the records of
  exactly those lines that parse to a record which validates; every other line leaves
  no trace. A record is in the result exactly when some line parses to it and it
  validates.
\<close>

theorem batchProcessUsers_spec:
  "batchProcessUsers ds = map the (filter kept (map parseUserData ds)) \<and>
   (r \<in> set (batchProcessUsers ds) \<longleftrightarrow>
      (\<exists>d \<in> set ds. parseUserData d = Some r \<and> validate r))"
  by (force simp: batchProcessUsers_def batch_loop_eq kept_def split: option.splits)

lemma scenario_D_lines:
  "parseUserData ''David,28,david@example.com'' =
     Some \<lparr>name = ''David'', age = 28, email = ''david@example.com''\<rparr>"
  "parseUserData ''BadLineNoCommas'' = None"
  "parseUserData ''Eve,35,eve@example.com'' =
     Some \<lparr>name = ''Eve'', age = 35, email = ''eve@example.com''\<rparr>"
  by (simp_all add: parse_eval)

lemma scenario_D_valid:
  "validate \<lparr>name = ''David'', age = 28, email = ''david@example.com''\<rparr>"
  "validate \<lparr>name = ''Eve'', age = 35, email = ''eve@example.com''\<rparr>"
  by (simp_all add: validate_def validateName_def validateAge_def validateEmail_def
      string_find_def)


text \<open>Scenario D of the specification: David and Eve are kept, in that order.\<close>

theorem batchProcessUsers_spec_witness:
  "batchProcessUsers [''David,28,david@example.com'', ''BadLineNoCommas'',
                      ''Eve,35,eve@example.com''] =
     [\<lparr>name = ''David'', age = 28, email = ''david@example.com''\<rparr>,
      \<lparr>name = ''Eve'', age = 35, email = ''eve@example.com''\<rparr>]"
  using batchProcessUsers_spec [of "[''David,28,david@example.com'', ''BadLineNoCommas'',
                      ''Eve,35,eve@example.com'']"]
  by (simp add: scenario_D_lines scenario_D_valid kept_def)

subsection \<open>An integer followed by other characters\<close>


text \<open>
  Claim C10, amended. Let the line have at least two commas and let its stripped
  second field consist of an optional sign, a non-empty run of decimal digits and then
  at least one further character, the first of which is not a digit. If the signed
  number fits a 32-bit \<open>int\<close>, \<open>parseUserData\<close> returns the record whose age is that
  number; if it does not fit, \<open>parseUserData\<close> returns the null result.
\<close>

theorem parse_integer_prefix:
  assumes "2 \<le> count_list s (CHR '','')"
    and "strip_spaces (field2 s) = sg @ ds @ rest"
    and "sg = [] \<or> sg = ''+'' \<or> sg = ''-''"
    and "ds \<noteq> []" and "\<forall>c \<in> set ds. isdigit c"
    and "rest \<noteq> []" and "\<not> isdigit (hd rest)"
  shows "if - (2 ^ 31) \<le> signed_value sg ds \<and> signed_value sg ds \<le> 2 ^ 31 - 1
     then \<exists>a. parseUserData s =
            Some \<lparr>name = strip_spaces (field1 s), age = a, email = strip_spaces (field3 s)\<rparr> \<and>
          sint a = signed_value sg ds
     else parseUserData s = None"
proof -
  have "stoi (strip_spaces (field2 s)) =
     (if - (2 ^ 31) \<le> signed_value sg ds \<and> signed_value sg ds \<le> 2 ^ 31 - 1
      then Inr (word_of_int (signed_value sg ds)) else Inl Out_of_range)"
    unfolding assms(2) using assms(3,4,5,7) by (intro stoi_signed_prefix) simp_all
  with assms(1) show ?thesis
    by (simp add: parseUserData_fields sint_word_of_int_32)
qed


text \<open>The line \<open>Bob, 17x, bob@x.com\<close> parses with age 17.\<close>

theorem parse_integer_prefix_witness:
  "parseUserData ''Bob, 17x, bob@x.com'' =
     Some \<lparr>name = ''Bob'', age = 17, email = ''bob@x.com''\<rparr> \<and>
   signed_value [] ''17'' = 17"
proof -
  have f: "count_list ''Bob, 17x, bob@x.com'' (CHR '','') = 2"
    "strip_spaces (field1 ''Bob, 17x, bob@x.com'') = ''Bob''"
    "strip_spaces (field2 ''Bob, 17x, bob@x.com'') = [] @ ''17'' @ ''x''"
    "strip_spaces (field3 ''Bob, 17x, bob@x.com'') = ''bob@x.com''"
    by (simp_all add: strip_spaces_def field1_def field2_def field3_def after_comma_def
        not_comma_def is_space_def)
  have d: "\<forall>c \<in> set ''17''. isdigit c" "\<not> isdigit (hd ''x'')"
    by (simp_all add: isdigit_def)
  have v: "signed_value [] ''17'' = 17"
    by (simp add: signed_value_def decimal_def digit_value_def)
  from parse_integer_prefix [of "''Bob, 17x, bob@x.com''" "[]" "''17''" "''x''"] f d v
  obtain a where "parseUserData ''Bob, 17x, bob@x.com'' =
      Some \<lparr>name = ''Bob'', age = a, email = ''bob@x.com''\<rparr>" and "sint a = 17"
    by auto
  moreover from \<open>sint a = 17\<close> have "a = 17"
    using of_int_sint [of a, where ?'a = "32 word"] by simp
  ultimately show ?thesis using v by simp
qed


text \<open>
  The claim as stated fails when the leading integer is too large for an \<open>int\<close>:
  the second field of this line begins with the integer 99999999999 followed by \<open>x\<close>,
  and the line does not parse.
\<close>

theorem parse_integer_prefix_counterexample:
  "2 \<le> count_list ''Bob, 99999999999x, bob@x.com'' (CHR '','') \<and>
   strip_spaces (field2 ''Bob, 99999999999x, bob@x.com'') = ''99999999999x'' \<and>
   parseUserData ''Bob, 99999999999x, bob@x.com'' = None"
  by (simp add: parse_eval)

subsection \<open>Commas inside a field\<close>

lemma in_set_dropWhile: "x \<in> set xs \<Longrightarrow> \<not> P x \<Longrightarrow> x \<in> set (dropWhile P xs)"
  by (induction xs) auto

lemma in_set_strip_spaces: "x \<in> set s \<Longrightarrow> \<not> is_space x \<Longrightarrow> x \<in> set (strip_spaces s)"
  unfolding strip_spaces_def set_rev
  by (intro in_set_dropWhile) (simp_all add: in_set_dropWhile)

lemma fields_of_line:
  assumes "CHR '','' \<notin> set nm" and "CHR '','' \<notin> set ag"
  shows "field1 (nm @ '','' @ ag @ '','' @ em) = nm"
    and "field2 (nm @ '','' @ ag @ '','' @ em) = ag"
    and "field3 (nm @ '','' @ ag @ '','' @ em) = em"
    and "\<not> count_list (nm @ '','' @ ag @ '','' @ em) (CHR '','') < 2"
proof -
  from assms have nm: "\<forall>x \<in> set nm. not_comma x" and ag: "\<forall>x \<in> set ag. not_comma x"
    by (auto simp: not_comma_def)
  have nc: "\<not> not_comma (CHR '','')"
    by (simp add: not_comma_def)
  have a1: "after_comma (nm @ '','' @ ag @ '','' @ em) = ag @ '','' @ em"
    using nm nc by (simp add: after_comma_def)
  have a2: "after_comma (ag @ '','' @ em) = em"
    using ag nc by (simp add: after_comma_def)
  show "field1 (nm @ '','' @ ag @ '','' @ em) = nm"
    using nm nc by (simp add: field1_def)
  show "field2 (nm @ '','' @ ag @ '','' @ em) = ag"
    unfolding field2_def a1 using ag nc by simp
  show "field3 (nm @ '','' @ ag @ '','' @ em) = em"
    unfolding field3_def a1 a2 ..
  show "\<not> count_list (nm @ '','' @ ag @ '','' @ em) (CHR '','') < 2"
    unfolding fewer_than_two_commas a1 by simp
qed

text \<open>
  Claim C4, amended. There is no escaping: a line is split at its first two commas.
  For a line \<open>NAME,AGE,EMAIL\<close> whose name and age contain no comma, the result is the
  same whether or not the email contains commas: the email of the record is the whole
  rest of the line, stripped. When the name contains a comma, a record that
  \<open>parseUserData\<close> returns carries only the part of the name before its first comma,
  never the name itself.
\<close>

theorem parse_unescaped_commas:
  "(CHR '','' \<notin> set nm \<and> CHR '','' \<notin> set ag \<longrightarrow>
      parseUserData (nm @ '','' @ ag @ '','' @ em) =
        (case stoi (strip_spaces ag) of
           Inl e \<Rightarrow> None
         | Inr a \<Rightarrow> Some \<lparr>name = strip_spaces nm, age = a, email = strip_spaces em\<rparr>)) \<and>
   (CHR '','' \<in> set nm \<and> parseUserData (nm @ '','' @ ag @ '','' @ em) = Some r \<longrightarrow>
      name r = strip_spaces (field1 nm) \<and> name r \<noteq> strip_spaces nm)"
proof (intro conjI impI)
  assume "CHR '','' \<notin> set nm \<and> CHR '','' \<notin> set ag"
  then have n: "CHR '','' \<notin> set nm" and g: "CHR '','' \<notin> set ag"
    by simp_all
  show "parseUserData (nm @ '','' @ ag @ '','' @ em) =
        (case stoi (strip_spaces ag) of
           Inl e \<Rightarrow> None
         | Inr a \<Rightarrow> Some \<lparr>name = strip_spaces nm, age = a, email = strip_spaces em\<rparr>)"
    by (simp only: parseUserData_fields fields_of_line [OF n g] if_False)
next
  assume a: "CHR '','' \<in> set nm \<and> parseUserData (nm @ '','' @ ag @ '','' @ em) = Some r"
  then have "\<exists>x \<in> set nm. \<not> not_comma x"
    by (auto simp: not_comma_def)
  then have "field1 (nm @ '','' @ ag @ '','' @ em) = field1 nm"
    unfolding field1_def by (auto intro: takeWhile_append1)
  with a show "name r = strip_spaces (field1 nm)"
    by (auto simp: parseUserData_fields split: if_splits sum.splits)
  have "CHR '','' \<notin> set (field1 nm)"
    unfolding field1_def by (auto simp: not_comma_def dest: set_takeWhileD)
  with set_strip_spaces_subset [of "field1 nm"]
  have "CHR '','' \<notin> set (strip_spaces (field1 nm))" by blast
  moreover from a have "CHR '','' \<in> set (strip_spaces nm)"
    by (intro in_set_strip_spaces) (simp_all add: is_space_def)
  ultimately show "name r \<noteq> strip_spaces nm"
    using \<open>name r = strip_spaces (field1 nm)\<close> by metis
qed


text \<open>
  An email with a comma is kept whole; of the name \<open>1,2\<close> only \<open>1\<close> reaches the
  record.
\<close>

theorem parse_unescaped_commas_witness:
  "CHR '','' \<in> set ''1,2'' \<and>
   parseUserData (''Al'' @ '','' @ ''30'' @ '','' @ ''a@b,c'') =
     Some \<lparr>name = ''Al'', age = 30, email = ''a@b,c''\<rparr> \<and>
   parseUserData (''1,2'' @ '','' @ ''3'' @ '','' @ ''x'') =
     Some \<lparr>name = ''1'', age = 2, email = ''3,x''\<rparr> \<and>
   strip_spaces (field1 ''1,2'') = ''1''"
proof -
  have p: "parseUserData (''1,2'' @ '','' @ ''3'' @ '','' @ ''x'') =
     Some \<lparr>name = ''1'', age = 2, email = ''3,x''\<rparr>"
    by (simp add: parse_eval)
  have s: "stoi (strip_spaces ''30'') = Inr 30"
    by (simp add: parse_eval)
  have t: "strip_spaces ''Al'' = ''Al''" "strip_spaces ''a@b,c'' = ''a@b,c''"
    by (simp_all add: strip_spaces_def is_space_def)
  from parse_unescaped_commas [of "''Al''" "''30''" "''a@b,c''"] s t
  have "parseUserData (''Al'' @ '','' @ ''30'' @ '','' @ ''a@b,c'') =
     Some \<lparr>name = ''Al'', age = 30, email = ''a@b,c''\<rparr>"
    by simp
  moreover from parse_unescaped_commas [of "''1,2''" "''3''" "''x''"
      "\<lparr>name = ''1'', age = 2, email = ''3,x''\<rparr>"] p
  have "strip_spaces (field1 ''1,2'') = ''1''"
    by simp
  ultimately show ?thesis using p by simp
qed


text \<open>
  The claim as stated fails: these two lines, one with a comma in the email and one
  with a comma in the name, both parse to a record.
\<close>

theorem parse_unescaped_commas_counterexample:
  "CHR '','' \<in> set ''a@b,c'' \<and>
   parseUserData (''Al'' @ '','' @ ''30'' @ '','' @ ''a@b,c'') =
     Some \<lparr>name = ''Al'', age = 30, email = ''a@b,c''\<rparr> \<and>
   CHR '','' \<in> set ''1,2'' \<and>
   parseUserData (''1,2'' @ '','' @ ''3'' @ '','' @ ''x'') =
     Some \<lparr>name = ''1'', age = 2, email = ''3,x''\<rparr>"
  by (simp add: parse_eval)

subsection \<open>The average age\<close>

lemma sint_add_32:
  "- (2 ^ 31) \<le> sint a + sint b \<Longrightarrow> sint a + sint b \<le> 2 ^ 31 - 1 \<Longrightarrow>
   sint (a + b :: 32 word) = sint a + sint b"
  by (simp add: sint_word_ariths signed_take_bit_int_eq_self)

lemma total_loop_no_overflow:
  "no_overflow t us \<Longrightarrow> sint (total_loop t us) = sint t + (\<Sum>u\<leftarrow>us. sint (age u))"
  by (induction us arbitrary: t) (simp_all add: getAge_def sint_add_32)

lemma no_overflow_bounded_ages:
  "\<forall>u \<in> set us. 0 \<le> sint (age u) \<and> sint (age u) \<le> 150 \<Longrightarrow> 0 \<le> sint t \<Longrightarrow>
   sint t + 150 * int (length us) \<le> 2 ^ 31 - 1 \<Longrightarrow> no_overflow t us"
proof (induction us arbitrary: t)
  case Nil
  show ?case by simp
next
  case (Cons u us)
  from Cons.prems have a: "0 \<le> sint (age u)" "sint (age u) \<le> 150"
    by simp_all
  from Cons.prems(3) have b: "sint t + 150 + 150 * int (length us) \<le> 2 ^ 31 - 1"
    by simp
  from a b Cons.prems(2) have r: "- (2 ^ 31) \<le> sint t + sint (age u)"
    "sint t + sint (age u) \<le> 2 ^ 31 - 1"
    by linarith+
  then have s: "sint (t + age u) = sint t + sint (age u)"
    by (rule sint_add_32)
  have "no_overflow (t + age u) us"
  proof (rule Cons.IH)
    show "\<forall>u \<in> set us. 0 \<le> sint (age u) \<and> sint (age u) \<le> 150"
      using Cons.prems(1) by simp
    show "0 \<le> sint (t + age u)"
      using s a Cons.prems(2) by simp
    show "sint (t + age u) + 150 * int (length us) \<le> 2 ^ 31 - 1"
      using s a b by linarith
  qed
  with r show ?case by simp
qed

lemma no_overflow_valid:
  assumes "\<forall>u \<in> set us. validate u" and "length us \<le> 14316557"
  shows "no_overflow 0 us"
proof (rule no_overflow_bounded_ages)
  show "\<forall>u \<in> set us. 0 \<le> sint (age u) \<and> sint (age u) \<le> 150"
    using assms(1) by (auto simp: validate_def validateAge_def word_sle_eq)
  show "0 \<le> sint (0 :: 32 word)" by simp
  from assms(2) have "150 * int (length us) \<le> 150 * 14316557" by simp
  then show "sint (0 :: 32 word) + 150 * int (length us) \<le> 2 ^ 31 - 1" by simp
qed

text \<open>
  Claim C7, amended. On the empty collection \<open>calculateAverageAge\<close> returns exactly
  zero. On a non-empty collection for which no addition of the loop leaves the range
  of a 32-bit \<open>int\<close>, it returns the sum of the ages divided by their number, rounded
  once to a \<open>double\<close>. No addition overflows when the collection holds at most
  14316557 records that all validate.
\<close>

theorem calculateAverageAge_spec:
  "calculateAverageAge rnd [] = 0 \<and>
   (us \<noteq> [] \<and> no_overflow 0 us \<longrightarrow>
      calculateAverageAge rnd us =
        rnd (real_of_int (\<Sum>u\<leftarrow>us. sint (age u)) / real (length us))) \<and>
   ((\<forall>u \<in> set us. validate u) \<and> length us \<le> 14316557 \<longrightarrow> no_overflow 0 us)"
  by (simp add: calculateAverageAge_def total_loop_no_overflow no_overflow_valid)

text \<open>Alice (25) and Bob (30) average 27.5, with exact arithmetic for the rounding.\<close>

theorem calculateAverageAge_spec_witness:
  "validate user1 \<and> validate user2 \<and> length [user1, user2] \<le> 14316557 \<and>
   no_overflow 0 [user1, user2] \<and> calculateAverageAge id [user1, user2] = 55 / 2"
proof -
  have v: "validate user1" "validate user2"
    by (simp_all add: user1_def user2_def validate_def validateName_def validateAge_def
        validateEmail_def string_find_def)
  have l: "length [user1, user2] \<le> 14316557"
    by simp
  from v l calculateAverageAge_spec [of id "[user1, user2]"]
  have n: "no_overflow 0 [user1, user2]"
    by simp
  with calculateAverageAge_spec [of id "[user1, user2]"]
  have "calculateAverageAge id [user1, user2] =
      id (real_of_int (\<Sum>u\<leftarrow>[user1, user2]. sint (age u)) / real (length [user1, user2]))"
    by blast
  then have "calculateAverageAge id [user1, user2] = 55 / 2"
    by (simp add: user1_def user2_def)
  with v l n show ?thesis by (intro conjI)
qed

text \<open>
  The claim as stated fails when the total overflows: for the ages \<open>2147483647\<close> and
  \<open>1\<close> the total wraps to \<open>- 2147483648\<close> and the result is \<open>- 1073741824\<close>, not the
  mean \<open>1073741824\<close>.
\<close>

theorem calculateAverageAge_counterexample:
  "calculateAverageAge id
     [\<lparr>name = ''a'', age = 2147483647, email = ''a@x''\<rparr>,
      \<lparr>name = ''b'', age = 1, email = ''b@x''\<rparr>] = - 1073741824 \<and>
   real_of_int (sint (2147483647 :: 32 word) + sint (1 :: 32 word)) / 2 = 1073741824"
  by (simp add: calculateAverageAge_def getAge_def)

subsection \<open>Sorting by age\<close>

lemma sort_insert_mset: "mset (sort_insert cmp x xs) = add_mset x (mset xs)"
  by (induction xs) auto

lemma std_sort_mset: "mset (std_sort cmp xs) = mset xs"
  by (induction xs) (auto simp: sort_insert_mset)


lemma sort_insert_set: "set (sort_insert cmp x xs) = insert x (set xs)"
  by (induction xs) auto

lemma sort_insert_sorted:
  fixes f :: "'a \<Rightarrow> int"
  assumes cmp: "\<And>a b. cmp a b \<longleftrightarrow> f a < f b"
  shows "sorted (map f xs) \<Longrightarrow> sorted (map f (sort_insert cmp x xs))"
proof (induction xs)
  case Nil
  show ?case by simp
next
  case (Cons y ys)
  show ?case
  proof (cases "cmp x y")
    case True
    with Cons.prems show ?thesis
      by (auto simp: cmp)
  next
    case False
    with Cons show ?thesis
      by (auto simp: cmp sort_insert_set)
  qed
qed

lemma std_sort_sorted:
  fixes f :: "'a \<Rightarrow> int"
  assumes cmp: "\<And>a b. cmp a b \<longleftrightarrow> f a < f b"
  shows "sorted (map f (std_sort cmp xs))"
  by (induction xs) (simp_all add: sort_insert_sorted [of cmp f, OF cmp])

lemma sortByAge_ascending: "sorted (map (\<lambda>u. sint (age u)) (sortByAge us True))"
  unfolding sortByAge_def
  by (rule std_sort_sorted) (simp add: age_order_def getAge_def word_sless_alt)

lemma sortByAge_descending: "sorted (map (\<lambda>u. - sint (age u)) (sortByAge us False))"
  unfolding sortByAge_def
  by (rule std_sort_sorted) (simp add: age_order_def getAge_def word_sless_alt)

lemma sorted_uminus_map:
  "sorted (map (\<lambda>u. - f u) xs) \<Longrightarrow> sorted_wrt (\<ge>) (map (f :: 'a \<Rightarrow> int) xs)"
  by (induction xs) auto

text \<open>
  Claim C8. For every collection, \<open>sortByAge\<close> with \<open>ascending = true\<close> yields a
  sequence in which the age of each element is at most the age of the next, and with
  \<open>ascending = false\<close> one in which it is at least the age of the next; the whole
  sequence of ages is ordered accordingly, and the result is a permutation of the
  collection. The ages are ordered in the same way in any sequence \<open>ys\<close> that is
  sorted with respect to the lambda as the standard requires of \<^verbatim>\<open>std::sort\<close>,
  whatever algorithm produced it.
\<close>

theorem sortByAge_spec:
  "(\<forall>i. Suc i < length us \<longrightarrow>
      sint (age (sortByAge us True ! i)) \<le> sint (age (sortByAge us True ! Suc i))) \<and>
   (\<forall>i. Suc i < length us \<longrightarrow>
      sint (age (sortByAge us False ! i)) \<ge> sint (age (sortByAge us False ! Suc i))) \<and>
   sorted_wrt (\<le>) (map (\<lambda>u. sint (age u)) (sortByAge us True)) \<and>
   sorted_wrt (\<ge>) (map (\<lambda>u. sint (age u)) (sortByAge us False)) \<and>
   mset (sortByAge us ascending) = mset us \<and>
   (sorted_wrt (\<lambda>a b. \<not> age_order True b a) ys \<longrightarrow>
      sorted_wrt (\<le>) (map (\<lambda>u. sint (age u)) ys)) \<and>
   (sorted_wrt (\<lambda>a b. \<not> age_order False b a) ys \<longrightarrow>
      sorted_wrt (\<ge>) (map (\<lambda>u. sint (age u)) ys))"
proof -
  have perm: "mset (sortByAge us b) = mset us" for b
    by (simp add: sortByAge_def std_sort_mset)
  then have len: "length (sortByAge us b) = length us" for b
    by (metis size_mset)
  have up: "sorted_wrt (\<le>) (map (\<lambda>u. sint (age u)) (sortByAge us True))"
    using sortByAge_ascending [of us] by simp
  have down: "sorted_wrt (\<ge>) (map (\<lambda>u. sint (age u)) (sortByAge us False))"
    using sortByAge_descending [of us] by (rule sorted_uminus_map)
  have "sint (age (sortByAge us True ! i)) \<le> sint (age (sortByAge us True ! Suc i))"
    if "Suc i < length us" for i
    using sorted_wrt_nth_less [OF up, of i "Suc i"] that by (simp add: len)
  moreover have "sint (age (sortByAge us False ! i)) \<ge> sint (age (sortByAge us False ! Suc i))"
    if "Suc i < length us" for i
    using sorted_wrt_nth_less [OF down, of i "Suc i"] that by (simp add: len)
  moreover have "sorted_wrt (\<le>) (map (\<lambda>u. sint (age u)) ys)"
    if "sorted_wrt (\<lambda>a b. \<not> age_order True b a) ys"
    using that
    by (auto simp: sorted_wrt_map age_order_def getAge_def word_sless_alt
        elim: sorted_wrt_mono_rel [rotated])
  moreover have "sorted_wrt (\<ge>) (map (\<lambda>u. sint (age u)) ys)"
    if "sorted_wrt (\<lambda>a b. \<not> age_order False b a) ys"
    using that
    by (auto simp: sorted_wrt_map age_order_def getAge_def word_sless_alt
        elim: sorted_wrt_mono_rel [rotated])
  ultimately show ?thesis
    using up down perm by blast
qed

text \<open>Bob (30), Alice (25) and Charlie (17), sorted both ways.\<close>

theorem sortByAge_spec_witness:
  "sortByAge [user2, user1, user3] True = [user3, user1, user2] \<and>
   sortByAge [user2, user1, user3] False = [user2, user1, user3] \<and>
   Suc 0 < length [user2, user1, user3] \<and>
   sint (age (sortByAge [user2, user1, user3] True ! 0))
     \<le> sint (age (sortByAge [user2, user1, user3] True ! Suc 0)) \<and>
   sint (age (sortByAge [user2, user1, user3] False ! 0))
     \<ge> sint (age (sortByAge [user2, user1, user3] False ! Suc 0)) \<and>
   sorted_wrt (\<lambda>a b. \<not> age_order True b a) [user3, user1] \<and>
   sorted_wrt (\<le>) (map (\<lambda>u. sint (age u)) [user3, user1]) \<and>
   sorted_wrt (\<lambda>a b. \<not> age_order False b a) [user1, user3] \<and>
   sorted_wrt (\<ge>) (map (\<lambda>u. sint (age u)) [user1, user3])"
proof -
  have r: "sortByAge [user2, user1, user3] True = [user3, user1, user2]"
    "sortByAge [user2, user1, user3] False = [user2, user1, user3]"
    by (simp_all add: sortByAge_def age_order_def getAge_def user1_def user2_def user3_def)
  have h: "Suc 0 < length [user2, user1, user3]" by simp
  have a: "sorted_wrt (\<lambda>a b. \<not> age_order True b a) [user3, user1]"
    and d: "sorted_wrt (\<lambda>a b. \<not> age_order False b a) [user1, user3]"
    by (simp_all add: age_order_def getAge_def user1_def user3_def)
  from sortByAge_spec [of "[user2, user1, user3]" True "[user3, user1]"] h a
  have up: "sint (age (sortByAge [user2, user1, user3] True ! 0))
     \<le> sint (age (sortByAge [user2, user1, user3] True ! Suc 0))"
    "sint (age (sortByAge [user2, user1, user3] False ! 0))
     \<ge> sint (age (sortByAge [user2, user1, user3] False ! Suc 0))"
    "sorted_wrt (\<le>) (map (\<lambda>u. sint (age u)) [user3, user1])"
    by blast+
  from sortByAge_spec [of "[user2, user1, user3]" True "[user1, user3]"] d
  have down: "sorted_wrt (\<ge>) (map (\<lambda>u. sint (age u)) [user1, user3])"
    by blast
  from r h up a d down show ?thesis by (intro conjI)
qed

end
